theory Spec2Isabelle
  imports Complex_Main "HOL-Library.Word"
begin

unbundle bit_operations_syntax

section \<open>The bladeRF source block of gr-osmosdr: data model\<close>

text \<open>
  The development follows \<^verbatim>\<open>lib/bladerf/bladerf_source_c.cc\<close>: the streaming
  entry points \<^verbatim>\<open>start()\<close>, \<^verbatim>\<open>stop()\<close> and \<^verbatim>\<open>work()\<close>, the sample conversion
  loop and the channel de-interleaving inside \<^verbatim>\<open>work()\<close>, and the scheduling
  constraints installed by the constructor.

  Conventions of the embedding.
  \<^item> \<^verbatim>\<open>int16_t\<close> is \<^typ>\<open>16 word\<close>, \<^verbatim>\<open>int8_t\<close> is \<^typ>\<open>8 word\<close>, the promoted
    \<^verbatim>\<open>int\<close> of a C expression is \<^typ>\<open>32 word\<close>; \<^verbatim>\<open>noutput_items\<close> and the value
    returned by \<^verbatim>\<open>work()\<close> are \<^typ>\<open>int\<close>.
  \<^item> A \<^verbatim>\<open>float\<close> is idealised as a \<^typ>\<open>real\<close>: the quotient by \<^verbatim>\<open>127.0\<close> is the
    exact quotient, the rounding to binary32 is not modelled. \<^verbatim>\<open>gr_complex\<close> is
    \<^typ>\<open>complex\<close>.
  \<^item> A heap buffer is a list of its elements, \<open>None\<close> for the \<^verbatim>\<open>NULL\<close> pointer. An
    access outside the buffer is undefined behaviour in C++; every function that
    touches a buffer returns an \<open>option\<close> and \<open>None\<close> stands for undefined behaviour.
  \<^item> The libbladeRF device is a record holding which RX modules are switched on and
    the log of the calls made on it. The status each device call returns is an input
    of the model (\<open>0\<close> is success), since it is decided by the hardware.
\<close>

subsection \<open>Device\<close>

datatype dev_call =
    SyncConfig
  | EnableModule nat bool
  | SetRficRegister nat nat
  | SyncRx int

record device =
  module_on :: "nat \<Rightarrow> bool"
  calls :: "dev_call list"

text \<open>The statuses the device answers with during one call of \<^verbatim>\<open>start()\<close> or \<^verbatim>\<open>stop()\<close>.\<close>

record dev_env =
  sync_config_status :: int
  enable_module_status :: "nat \<Rightarrow> bool \<Rightarrow> int"

text \<open>
  \<^verbatim>\<open>bladerf_enable_module(dev, ch, enable)\<close>: the call is logged; when the device
  reports success the module is in the requested state, otherwise it is left as it was.
\<close>

definition bladerf_enable_module :: "dev_env \<Rightarrow> nat \<Rightarrow> bool \<Rightarrow> device \<Rightarrow> int \<times> device" where
  "bladerf_enable_module env ch en d =
     (let status = enable_module_status env ch en;
          d1 = d\<lparr>calls := calls d @ [EnableModule ch en]\<rparr>
      in if status = 0 then (status, d1\<lparr>module_on := (module_on d1)(ch := en)\<rparr>)
         else (status, d1))"



subsection \<open>Configuration and session state\<close>

datatype bladerf_channel_layout = BLADERF_RX_X1 | BLADERF_RX_X2

text \<open>
  Modelled from the spec: \<^verbatim>\<open>num_streams\<close> is defined in \<^verbatim>\<open>bladerf_common.cc\<close>, which is
  not part of the sources at hand. The spec's router takes the channel count of the
  layout: one stream for the single-channel layout, two for the interleaved one.
\<close>

definition num_streams :: "bladerf_channel_layout \<Rightarrow> nat" where
  "num_streams layout = (case layout of BLADERF_RX_X1 \<Rightarrow> 1 | BLADERF_RX_X2 \<Rightarrow> 2)"

text \<open>
  The members the block inherits from \<^verbatim>\<open>bladerf_common\<close> and never changes while
  streaming. \<^verbatim>\<open>MAX_CONSECUTIVE_FAILURES\<close> is a constant of the absent header
  \<^verbatim>\<open>bladerf_common.h\<close> and is therefore a parameter here.
\<close>

record config =
  samples_per_buffer :: nat
  max_channels :: nat
  layout :: bladerf_channel_layout
  MAX_CONSECUTIVE_FAILURES :: nat

text \<open>
  The mutable members: \<^verbatim>\<open>_running\<close>, \<^verbatim>\<open>_failures\<close>, the two scratch buffers
  \<^verbatim>\<open>_16icbuf\<close> and \<^verbatim>\<open>_32fcbuf\<close> (the latter seen as the flat \<^verbatim>\<open>float\<close> array that the
  conversion loop writes), the per-channel enable flags read by
  \<^verbatim>\<open>get_channel_enable\<close>, and the device.

  Modelled from the spec: the declaration of \<^verbatim>\<open>_failures\<close> is in the absent header;
  the spec describes it as a running count that a failure increments and a success
  resets to zero, so it is a natural number here.
\<close>

record session =
  running :: bool
  failures :: nat
  ic16buf :: "16 word list option"
  fc32buf :: "real list option"
  channel_enable :: "nat \<Rightarrow> bool"
  dev :: device

datatype outcome = Returned bool | Threw int string

definition WORK_DONE :: int where
  "WORK_DONE = - 1"

section \<open>Sample conversion\<close>

text \<open>
  The four right-hand sides of the loop body of \<^verbatim>\<open>work()\<close>:
  \<^verbatim>\<open>((float)((int8_t)((x & 0xFF)))) / 127.0\<close> and
  \<^verbatim>\<open>((float)((int8_t)((x >> 8) & 0xFF))) / 127.0\<close> for an \<^verbatim>\<open>int16_t x\<close>.
  The operand is promoted to \<^verbatim>\<open>int\<close> (sign extension), the shift of a negative
  value is arithmetic, and the cast to \<^verbatim>\<open>int8_t\<close> keeps the low eight bits.
\<close>

definition component_lo :: "16 word \<Rightarrow> real" where
  "component_lo x =
     real_of_int (sint (ucast ((scast x :: 32 word) AND 0xFF) :: 8 word)) / 127"

definition component_hi :: "16 word \<Rightarrow> real" where
  "component_hi x =
     real_of_int (sint (ucast (signed_drop_bit 8 (scast x :: 32 word) AND 0xFF) :: 8 word)) / 127"

text \<open>
  The conversion loop
  \<^verbatim>\<open>for (int i=0; i<noutput_items; i+=2) { fbuf[i*2+0] = ...; ... fbuf[i*2+3] = ...; }\<close>
  reading \<^verbatim>\<open>_16icbuf[i+0]\<close> and \<^verbatim>\<open>_16icbuf[i+1]\<close>. An index outside either buffer
  is undefined behaviour.
\<close>

function convert_loop :: "nat \<Rightarrow> int \<Rightarrow> 16 word list \<Rightarrow> real list \<Rightarrow> real list option" where
  "convert_loop i noutput_items ibuf fbuf =
     (if int i < noutput_items then
        (if i + 1 < length ibuf \<and> i * 2 + 3 < length fbuf then
           convert_loop (i + 2) noutput_items ibuf
             (fbuf[i * 2 + 0 := component_lo (ibuf ! (i + 0)),
                   i * 2 + 1 := component_lo (ibuf ! (i + 1)),
                   i * 2 + 2 := component_hi (ibuf ! (i + 0)),
                   i * 2 + 3 := component_hi (ibuf ! (i + 1))])
         else None)
      else Some fbuf)"
  by pat_completeness auto
termination
  by (relation "measure (\<lambda>(i, n, ibuf, fbuf). nat (n - int i))") auto

declare convert_loop.simps [simp del]

text \<open>\<^verbatim>\<open>_32fcbuf\<close> read as an array of \<^verbatim>\<open>gr_complex\<close>: element \<open>k\<close> is the pair of floats \<open>2k\<close>, \<open>2k+1\<close>.\<close>

definition as_complex :: "real list \<Rightarrow> complex list" where
  "as_complex fbuf = map (\<lambda>k. Complex (fbuf ! (2 * k)) (fbuf ! (2 * k + 1))) [0..<length fbuf div 2]"

section \<open>Channel routing\<close>

text \<open>
  The inner loop \<^verbatim>\<open>for (size_t n = 0; n < nstreams; ++n) memcpy(out[n]++, deint_in++, ...)\<close>.
  The output ports are the lists of items written so far (the framework owns the
  output buffers and advances nothing itself); \<open>pos\<close> is \<^verbatim>\<open>deint_in\<close> as an index into
  the converted buffer.
\<close>

function deint_inner :: "nat \<Rightarrow> nat \<Rightarrow> 'a list \<Rightarrow> 'a list list \<times> nat \<Rightarrow> ('a list list \<times> nat) option" where
  "deint_inner n nstreams cbuf (out, pos) =
     (if n < nstreams then
        (if pos < length cbuf \<and> n < length out then
           deint_inner (n + 1) nstreams cbuf (out[n := out ! n @ [cbuf ! pos]], pos + 1)
         else None)
      else Some (out, pos))"
  by pat_completeness auto
termination
  by (relation "measure (\<lambda>(n, nstreams, cbuf, st). nstreams - n)") auto

declare deint_inner.simps [simp del]

text \<open>The outer loop \<^verbatim>\<open>for (size_t i = 0; i < (noutput_items/nstreams); ++i)\<close>.\<close>

function deint_outer :: "nat \<Rightarrow> nat \<Rightarrow> nat \<Rightarrow> 'a list \<Rightarrow> 'a list list \<times> nat \<Rightarrow> ('a list list \<times> nat) option" where
  "deint_outer i rounds nstreams cbuf st =
     (if i < rounds then
        (case deint_inner 0 nstreams cbuf st of
           None \<Rightarrow> None
         | Some st' \<Rightarrow> deint_outer (i + 1) rounds nstreams cbuf st')
      else Some st)"
  by pat_completeness auto
termination
  by (relation "measure (\<lambda>(i, rounds, nstreams, cbuf, st). rounds - i)") auto

declare deint_outer.simps [simp del]

text \<open>
  The routing step of \<^verbatim>\<open>work()\<close>. The result lists, for each output port that is
  written, the items written to it. A negative \<^verbatim>\<open>noutput_items\<close> becomes a huge
  \<^verbatim>\<open>size_t\<close> in both branches and runs off the buffers.
\<close>

definition route :: "nat \<Rightarrow> int \<Rightarrow> 'a list \<Rightarrow> 'a list list option" where
  "route nstreams noutput_items cbuf =
     (if noutput_items < 0 then None
      else if nstreams > 1 then
        (case deint_outer 0 (nat noutput_items div nstreams) nstreams cbuf
                (replicate nstreams [], 0) of
           None \<Rightarrow> None
         | Some (out, pos) \<Rightarrow> Some out)
      else
        (if nat noutput_items \<le> length cbuf then Some [take (nat noutput_items) cbuf]
         else None))"

section \<open>The block: constructor constraints, start, stop, work\<close>

subsection \<open>Constructor\<close>

text \<open>
  What the constructor registers with the scheduler (``Set up constraints'' and the two
  steps around it): the output signature is cut down to the number of channels of the
  hardware, the alignment is \<^verbatim>\<open>std::max(1, alignment_multiple)\<close> where the \<^verbatim>\<open>int\<close>
  \<^verbatim>\<open>alignment_multiple\<close> holds \<^verbatim>\<open>volk_get_alignment() / sizeof(gr_complex)\<close> (an unsigned
  quotient narrowed to 32 bits) with \<^verbatim>\<open>sizeof(gr_complex) = 8\<close>, the largest request is \<^verbatim>\<open>_samples_per_buffer\<close>, the
  output multiple is \<^verbatim>\<open>get_num_channels()\<close>, and the layout is \<^verbatim>\<open>BLADERF_RX_X2\<close> for more
  than one channel.
\<close>

record block_setup =
  num_channels :: nat
  alignment :: int
  max_noutput_items :: nat
  output_multiple :: nat
  setup_layout :: bladerf_channel_layout

definition constructor_setup :: "nat \<Rightarrow> nat \<Rightarrow> nat \<Rightarrow> nat \<Rightarrow> block_setup" where
  "constructor_setup volk_alignment requested_channels hw_max_channels spb =
     (let get_num_channels =
            (if requested_channels > hw_max_channels then hw_max_channels
             else requested_channels);
          alignment_multiple = sint (word_of_nat (volk_alignment div 8) :: 32 word)
      in \<lparr> num_channels = get_num_channels,
           alignment = max 1 alignment_multiple,
           max_noutput_items = spb,
           output_multiple = get_num_channels,
           setup_layout = (if get_num_channels > 1 then BLADERF_RX_X2 else BLADERF_RX_X1) \<rparr>)"

subsection \<open>Switching the RX modules\<close>

text \<open>
  The loop shared by \<^verbatim>\<open>start()\<close> (with \<open>en = True\<close>) and \<^verbatim>\<open>stop()\<close> (with \<open>en = False\<close>):
  \<^verbatim>\<open>for (size_t ch = 0; ch < get_max_channels(); ++ch) if (get_channel_enable(brfch)) { status = bladerf_enable_module(..., brfch, en); if (status != 0) throw ... }\<close>.
  The result is \<open>Some status\<close> when the loop is left by the throw.
\<close>

function module_loop :: "dev_env \<Rightarrow> bool \<Rightarrow> nat \<Rightarrow> nat \<Rightarrow> (nat \<Rightarrow> bool) \<Rightarrow> device \<Rightarrow> int option \<times> device" where
  "module_loop env en ch maxch enabled d =
     (if ch < maxch then
        (if enabled ch then
           (case bladerf_enable_module env ch en d of
              (status, d') \<Rightarrow>
                if status \<noteq> 0 then (Some status, d')
                else module_loop env en (ch + 1) maxch enabled d')
         else module_loop env en (ch + 1) maxch enabled d)
      else (None, d))"
  by pat_completeness auto
termination
  by (relation "measure (\<lambda>(env, en, ch, maxch, enabled, d). maxch - ch)") auto

declare module_loop.simps [simp del]

subsection \<open>start\<close>




subsection \<open>stop\<close>

definition stop :: "config \<Rightarrow> dev_env \<Rightarrow> session \<Rightarrow> outcome \<times> session" where
  "stop cfg env s =
     (if \<not> running s then (Returned True, s)
      else
        (let s1 = s\<lparr>running := False\<rparr> in
         case module_loop env False 0 (max_channels cfg) (channel_enable s1) (dev s1) of
           (Some status, d) \<Rightarrow>
             (Threw status ''bladerf_enable_module failed'', s1\<lparr>dev := d\<rparr>)
         | (None, d) \<Rightarrow>
             (Returned True, s1\<lparr>dev := d, ic16buf := None, fc32buf := None\<rparr>)))"

subsection \<open>work\<close>

text \<open>
  \<^verbatim>\<open>bladerf_sync_rx\<close> into \<^verbatim>\<open>_16icbuf\<close>: the call is logged and the device leaves
  \<open>rx_data\<close> at the start of the buffer, whatever the status (after an error the
  contents are whatever the transfer left). Data longer than the buffer overruns it.
\<close>

definition bladerf_sync_rx :: "int \<Rightarrow> 16 word list \<Rightarrow> 16 word list \<Rightarrow> device \<Rightarrow> (16 word list \<times> device) option" where
  "bladerf_sync_rx noutput_items rx_data ibuf d =
     (if length rx_data > length ibuf then None
      else Some (rx_data @ drop (length rx_data) ibuf,
                 d\<lparr>calls := calls d @ [SyncRx noutput_items]\<rparr>))"

text \<open>
  \<^verbatim>\<open>work(noutput_items, input_items, output_items)\<close>. The inputs \<open>rx_status\<close> and
  \<open>rx_data\<close> are what the receive of this call answers. The result is the returned
  \<^verbatim>\<open>int\<close>, the items written to each output port, and the state afterwards.
\<close>

definition work :: "config \<Rightarrow> int \<Rightarrow> int \<Rightarrow> 16 word list \<Rightarrow> session \<Rightarrow> (int \<times> complex list list \<times> session) option" where
  "work cfg noutput_items rx_status rx_data s =
     (let nstreams = num_streams (layout cfg) in
      if \<not> running s then Some (0, [], s)
      else
        (case (ic16buf s, fc32buf s) of
           (Some ibuf, Some fbuf) \<Rightarrow>
             (case bladerf_sync_rx noutput_items rx_data ibuf (dev s) of
                None \<Rightarrow> None
              | Some (ibuf', d') \<Rightarrow>
                  (let s1 = s\<lparr>ic16buf := Some ibuf', dev := d'\<rparr>;
                       s2 = (if rx_status \<noteq> 0 then s1\<lparr>failures := failures s1 + 1\<rparr>
                             else s1\<lparr>failures := 0\<rparr>)
                   in if rx_status \<noteq> 0 \<and> failures s2 \<ge> MAX_CONSECUTIVE_FAILURES cfg
                      then Some (WORK_DONE, [], s2)
                      else
                        (case convert_loop 0 noutput_items ibuf' fbuf of
                           None \<Rightarrow> None
                         | Some fbuf' \<Rightarrow>
                             (case route nstreams noutput_items (as_complex fbuf') of
                                None \<Rightarrow> None
                              | Some out \<Rightarrow>
                                  Some (noutput_items, out, s2\<lparr>fc32buf := Some fbuf'\<rparr>)))))
         | _ \<Rightarrow> None))"

text \<open>
  A sequence of \<^verbatim>\<open>work()\<close> calls with the same request, one receive answer per call:
  the list of returned values and the final state.
\<close>

fun work_run :: "config \<Rightarrow> int \<Rightarrow> (int \<times> 16 word list) list \<Rightarrow> session \<Rightarrow> (int list \<times> session) option" where
  "work_run cfg n [] s = Some ([], s)"
| "work_run cfg n ((rx_status, rx_data) # rxs) s =
     (case work cfg n rx_status rx_data s of
        None \<Rightarrow> None
      | Some (r, out, s') \<Rightarrow>
          (case work_run cfg n rxs s' of
             None \<Rightarrow> None
           | Some (rs, s'') \<Rightarrow> Some (r # rs, s'')))"

subsection \<open>Concrete sessions used in the examples\<close>

definition quiet_device :: device where
  "quiet_device = \<lparr> module_on = (\<lambda>ch. False), calls = [] \<rparr>"

text \<open>A device on which switching channel 1 fails with status \<open>-1\<close>.\<close>

definition ch1_fails_env :: dev_env where
  "ch1_fails_env =
     \<lparr> sync_config_status = 0,
       enable_module_status = (\<lambda>ch en. if ch = 1 then - 1 else 0) \<rparr>"

definition cfg2 :: config where
  "cfg2 = \<lparr> samples_per_buffer = 4, max_channels = 2, layout = BLADERF_RX_X2,
            MAX_CONSECUTIVE_FAILURES = 3 \<rparr>"

definition cfg1 :: config where
  "cfg1 = \<lparr> samples_per_buffer = 4, max_channels = 2, layout = BLADERF_RX_X1,
            MAX_CONSECUTIVE_FAILURES = 3 \<rparr>"

text \<open>A freshly constructed, stopped session with both channels wired.\<close>

definition stopped_session :: session where
  "stopped_session =
     \<lparr> running = False, failures = 0, ic16buf = None, fc32buf = None,
       channel_enable = (\<lambda>ch. ch < 2), dev = quiet_device \<rparr>"

text \<open>The same session after a successful \<^verbatim>\<open>start()\<close> with four samples per buffer.\<close>

definition running_session :: session where
  "running_session =
     \<lparr> running = True, failures = 0,
       ic16buf = Some [0, 0, 0, 0, 0, 0, 0, 0],
       fc32buf = Some [0, 0, 0, 0, 0, 0, 0, 0],
       channel_enable = (\<lambda>ch. ch < 2),
       dev = \<lparr> module_on = (\<lambda>ch. ch < 2), calls = [] \<rparr> \<rparr>"

section \<open>Vocabulary of the properties\<close>

text \<open>
  The numbering of the samples in the raw buffer, as the source has it: \<^verbatim>\<open>_16icbuf\<close> is
  allocated with two \<^verbatim>\<open>int16_t\<close> for each of the \<^verbatim>\<open>_samples_per_buffer\<close> samples, the
  receive is asked for \<^verbatim>\<open>noutput_items\<close> samples, and the comment on the conversion
  counts \<open>2 * noutput_items\<close> points. Input sample \<open>k\<close> is the pair of halfwords \<open>2k\<close> and
  \<open>2k + 1\<close>.
\<close>

definition sample16 :: "16 word list \<Rightarrow> nat \<Rightarrow> 16 word \<times> 16 word" where
  "sample16 ibuf k = (ibuf ! (2 * k), ibuf ! (2 * k + 1))"

text \<open>Byte \<open>0\<close> (low) or \<open>1\<close> (high) of a halfword.\<close>

definition halfword_byte :: "nat \<Rightarrow> 16 word \<Rightarrow> 8 word" where
  "halfword_byte p h = (if p = 0 then ucast h else ucast (drop_bit 8 h))"

text \<open>
  The two bytes that the loop body turns into converted item \<open>k\<close>: byte \<open>k mod 2\<close> of the
  halfwords \<open>2 (k div 2)\<close> and \<open>2 (k div 2) + 1\<close>.
\<close>

definition item_bytes :: "16 word list \<Rightarrow> nat \<Rightarrow> 8 word \<times> 8 word" where
  "item_bytes ibuf k =
     (halfword_byte (k mod 2) (ibuf ! (2 * (k div 2))),
      halfword_byte (k mod 2) (ibuf ! (2 * (k div 2) + 1)))"

text \<open>The 8-bit component that ends up in float slot \<open>j\<close> of the converted buffer.\<close>

definition raw_component :: "16 word list \<Rightarrow> nat \<Rightarrow> 8 word" where
  "raw_component ibuf j = halfword_byte (j mod 4 div 2) (ibuf ! (2 * (j div 4) + j mod 2))"

text \<open>A signed 8-bit value divided by 127, as a real number.\<close>

definition scale127 :: "8 word \<Rightarrow> real" where
  "scale127 b = real_of_int (sint b) / 127"

text \<open>The request rounded up to the next even number: the loop advances in steps of two.\<close>

definition round_up_even :: "int \<Rightarrow> nat" where
  "round_up_even n = nat (n + n mod 2)"

text \<open>
  A running session owns both scratch buffers with the sizes \<^verbatim>\<open>start()\<close> allocates.
\<close>

definition session_ok :: "config \<Rightarrow> session \<Rightarrow> bool" where
  "session_ok cfg s =
     (case (ic16buf s, fc32buf s) of
        (Some ibuf, Some fbuf) \<Rightarrow>
          length ibuf = 2 * samples_per_buffer cfg \<and> length fbuf = 2 * samples_per_buffer cfg
      | _ \<Rightarrow> False)"

text \<open>
  A request that keeps the conversion loop inside the buffers: not negative and, rounded
  up to an even number, at most \<^verbatim>\<open>_samples_per_buffer\<close>.
\<close>

definition request_ok :: "config \<Rightarrow> int \<Rightarrow> bool" where
  "request_ok cfg n = (0 \<le> n \<and> round_up_even n \<le> samples_per_buffer cfg)"

text \<open>The data of one receive fits the raw buffer.\<close>

definition rx_fits :: "config \<Rightarrow> 16 word list \<Rightarrow> bool" where
  "rx_fits cfg rx_data = (length rx_data \<le> 2 * samples_per_buffer cfg)"

text \<open>Every receive of the list fails and fits the raw buffer.\<close>

definition all_failed :: "config \<Rightarrow> (int \<times> 16 word list) list \<Rightarrow> bool" where
  "all_failed cfg rxs = list_all (\<lambda>rx. fst rx \<noteq> 0 \<and> rx_fits cfg (snd rx)) rxs"




section \<open>Properties of the conversion\<close>

lemma mask8: "(0xFF :: 32 word) = mask 8"
  by (simp add: mask_eq_exp_minus_1)

lemma lo_byte:
  "(ucast ((scast (x :: 16 word) :: 32 word) AND 0xFF) :: 8 word) = ucast x"
  unfolding mask8 by (rule bit_word_eqI) (auto simp add: bit_simps)

lemma hi_byte:
  "(ucast (signed_drop_bit 8 (scast (x :: 16 word) :: 32 word) AND 0xFF) :: 8 word)
     = ucast (drop_bit 8 x)"
  unfolding mask8 by (rule bit_word_eqI) (auto simp add: bit_simps)

lemma component_lo_scale: "component_lo x = scale127 (halfword_byte 0 x)"
  by (simp add: component_lo_def scale127_def halfword_byte_def lo_byte)

lemma component_hi_scale: "component_hi x = scale127 (halfword_byte 1 x)"
  by (simp add: component_hi_def scale127_def halfword_byte_def hi_byte)

text \<open>Slot \<open>4k + r\<close> of the converted buffer, for the four assignments of the loop body.\<close>

lemma raw_component_at:
  assumes "r < 4"
  shows "raw_component ibuf (4 * k + r) =
     (if r < 2 then halfword_byte 0 (ibuf ! (2 * k + r))
      else halfword_byte 1 (ibuf ! (2 * k + (r - 2))))"
proof -
  from assms have m4: "(4 * k + r) mod 4 = r" and d4: "(4 * k + r) div 4 = k" by simp_all
  have "(4 * k + r) mod 2 = r mod 2" by presburger
  moreover from assms have "r mod 2 = (if r < 2 then r else r - 2)" by presburger
  ultimately have m2: "(4 * k + r) mod 2 = (if r < 2 then r else r - 2)" by simp
  from assms have dr: "r div 2 = (if r < 2 then 0 else 1)" by presburger
  show ?thesis unfolding raw_component_def m4 d4 m2 dr by simp
qed

lemma slot_value_body:
  assumes "even i"
  shows "scale127 (raw_component ibuf (i * 2)) = component_lo (ibuf ! i)"
    and "scale127 (raw_component ibuf (i * 2 + 1)) = component_lo (ibuf ! (i + 1))"
    and "scale127 (raw_component ibuf (i * 2 + 2)) = component_hi (ibuf ! i)"
    and "scale127 (raw_component ibuf (i * 2 + 3)) = component_hi (ibuf ! (i + 1))"
proof -
  from assms obtain k where k: "i = 2 * k" by (auto elim: evenE)
  have e: "i * 2 = 4 * k + 0" "i * 2 + 1 = 4 * k + 1" "i * 2 + 2 = 4 * k + 2"
    "i * 2 + 3 = 4 * k + 3"
    by (simp_all add: k)
  show "scale127 (raw_component ibuf (i * 2)) = component_lo (ibuf ! i)"
    using raw_component_at [of 0 ibuf k] by (simp add: k component_lo_scale)
  show "scale127 (raw_component ibuf (i * 2 + 1)) = component_lo (ibuf ! (i + 1))"
    unfolding e using raw_component_at [of 1 ibuf k] by (simp add: k component_lo_scale)
  show "scale127 (raw_component ibuf (i * 2 + 2)) = component_hi (ibuf ! i)"
    unfolding e using raw_component_at [of 2 ibuf k] by (simp add: k component_hi_scale)
  show "scale127 (raw_component ibuf (i * 2 + 3)) = component_hi (ibuf ! (i + 1))"
    unfolding e using raw_component_at [of 3 ibuf k] by (simp add: k component_hi_scale)
qed

lemma round_up_even_gt:
  assumes "even i" "int i < n"
  shows "i + 2 \<le> round_up_even n"
proof -
  from assms(1) have "even (int i)" by simp
  with assms(2) have "int i + 2 \<le> n + n mod 2" by presburger
  then show ?thesis unfolding round_up_even_def by linarith
qed

lemma round_up_even_le:
  assumes "even i" "\<not> int i < n"
  shows "round_up_even n \<le> i"
proof -
  from assms(1) have "even (int i)" by simp
  with assms(2) have "n + n mod 2 \<le> int i" by presburger
  then show ?thesis unfolding round_up_even_def by linarith
qed

lemma round_up_even_last:
  assumes "even i" "int i < n" "\<not> int (i + 2) < n"
  shows "round_up_even n = i + 2"
  using round_up_even_gt [OF assms(1,2)] round_up_even_le [of "i + 2" n] assms by simp

lemma convert_loop_closed:
  "even i \<Longrightarrow> convert_loop i n ibuf fbuf = Some fbuf' \<Longrightarrow>
     length fbuf' = length fbuf \<and>
     (int i < n \<longrightarrow> round_up_even n \<le> length ibuf \<and> 2 * round_up_even n \<le> length fbuf) \<and>
     (\<forall>j < length fbuf. fbuf' ! j =
         (if 2 * i \<le> j \<and> j < 2 * round_up_even n then scale127 (raw_component ibuf j) else fbuf ! j))"
proof (induction i n ibuf fbuf rule: convert_loop.induct)
  case (1 i n ibuf fbuf)
  show ?case
  proof (cases "int i < n")
    case False
    with "1.prems" have "fbuf' = fbuf" by (simp add: convert_loop.simps)
    moreover from False \<open>even i\<close> have "round_up_even n \<le> i"
      by (simp add: round_up_even_le)
    ultimately show ?thesis using False by auto
  next
    case True
    define fbuf1 where "fbuf1 = fbuf[i * 2 + 0 := component_lo (ibuf ! (i + 0)),
                   i * 2 + 1 := component_lo (ibuf ! (i + 1)),
                   i * 2 + 2 := component_hi (ibuf ! (i + 0)),
                   i * 2 + 3 := component_hi (ibuf ! (i + 1))]"
    from True "1.prems" have bounds: "i + 1 < length ibuf" "i * 2 + 3 < length fbuf"
      by (auto simp add: convert_loop.simps [of i] split: if_splits)
    with True "1.prems" have rec: "convert_loop (i + 2) n ibuf fbuf1 = Some fbuf'"
      by (simp add: convert_loop.simps [of i] fbuf1_def)
    have len1: "length fbuf1 = length fbuf" by (simp add: fbuf1_def)
    from "1.IH" [OF True _ _ rec [unfolded fbuf1_def]] bounds \<open>even i\<close>
    have IH: "length fbuf' = length fbuf1"
      "int (i + 2) < n \<longrightarrow> round_up_even n \<le> length ibuf \<and> 2 * round_up_even n \<le> length fbuf1"
      "\<And>j. j < length fbuf1 \<Longrightarrow> fbuf' ! j =
         (if 2 * (i + 2) \<le> j \<and> j < 2 * round_up_even n then scale127 (raw_component ibuf j) else fbuf1 ! j)"
      by (auto simp add: fbuf1_def)
    have up: "i + 2 \<le> round_up_even n" using round_up_even_gt [OF \<open>even i\<close> True] .
    have last: "\<not> int (i + 2) < n \<Longrightarrow> round_up_even n = i + 2"
      using round_up_even_last [OF \<open>even i\<close> True] .
    have bnd: "round_up_even n \<le> length ibuf \<and> 2 * round_up_even n \<le> length fbuf"
    proof (cases "int (i + 2) < n")
      case True
      with IH(2) len1 show ?thesis by simp
    next
      case False
      from last [OF False] bounds show ?thesis by simp
    qed
    have vals: "fbuf' ! j =
         (if 2 * i \<le> j \<and> j < 2 * round_up_even n then scale127 (raw_component ibuf j) else fbuf ! j)"
      if j: "j < length fbuf" for j
    proof -
      from j len1 have j1: "j < length fbuf1" by simp
      have "j < 2 * i \<or> j = i * 2 \<or> j = i * 2 + 1 \<or> j = i * 2 + 2 \<or> j = i * 2 + 3
        \<or> 2 * (i + 2) \<le> j" by arith
      then consider "j < 2 * i" | "j = i * 2" | "j = i * 2 + 1" | "j = i * 2 + 2" | "j = i * 2 + 3"
        | "2 * (i + 2) \<le> j" by blast
      then show ?thesis
      proof cases
        case 1
        then show ?thesis using IH(3) [OF j1] by (simp add: fbuf1_def)
      next
        case 2
        then show ?thesis using IH(3) [OF j1] up bounds slot_value_body(1) [OF \<open>even i\<close>, of ibuf]
          by (simp add: fbuf1_def)
      next
        case 3
        then show ?thesis using IH(3) [OF j1] up bounds slot_value_body(2) [OF \<open>even i\<close>, of ibuf]
          by (simp add: fbuf1_def)
      next
        case 4
        then show ?thesis using IH(3) [OF j1] up bounds slot_value_body(3) [OF \<open>even i\<close>, of ibuf]
          by (simp add: fbuf1_def)
      next
        case 5
        then show ?thesis using IH(3) [OF j1] up bounds slot_value_body(4) [OF \<open>even i\<close>, of ibuf]
          by (simp add: fbuf1_def)
      next
        case 6
        then show ?thesis using IH(3) [OF j1] by (simp add: fbuf1_def)
      qed
    qed
    from IH(1) len1 bnd vals show ?thesis by simp
  qed
qed

lemma convert_loop_defined:
  "even i \<Longrightarrow> (int i < n \<longrightarrow> round_up_even n \<le> length ibuf \<and> 2 * round_up_even n \<le> length fbuf) \<Longrightarrow>
     \<exists>fbuf'. convert_loop i n ibuf fbuf = Some fbuf'"
proof (induction i n ibuf fbuf rule: convert_loop.induct)
  case (1 i n ibuf fbuf)
  show ?case
  proof (cases "int i < n")
    case False
    then show ?thesis by (simp add: convert_loop.simps [of i])
  next
    case True
    from round_up_even_gt [OF \<open>even i\<close> True] "1.prems"(2) True
    have bounds: "i + 1 < length ibuf" "i * 2 + 3 < length fbuf" by auto
    have "\<exists>fbuf'. convert_loop (i + 2) n ibuf (fbuf[i * 2 + 0 := component_lo (ibuf ! (i + 0)),
                   i * 2 + 1 := component_lo (ibuf ! (i + 1)),
                   i * 2 + 2 := component_hi (ibuf ! (i + 0)),
                   i * 2 + 3 := component_hi (ibuf ! (i + 1))]) = Some fbuf'"
      using "1.IH" [OF True] bounds \<open>even i\<close> "1.prems"(2) True by auto
    then show ?thesis using True bounds by (simp add: convert_loop.simps [of i])
  qed
qed

lemma raw_component_even:
  "raw_component ibuf (2 * k) = fst (item_bytes ibuf k)"
proof -
  have "(2 * k) mod 4 div 2 = k mod 2" "(2 * k) div 4 = k div 2" "(2 * k) mod 2 = 0"
    by presburger+
  then show ?thesis by (simp add: raw_component_def item_bytes_def)
qed

lemma raw_component_odd:
  "raw_component ibuf (2 * k + 1) = snd (item_bytes ibuf k)"
proof -
  have "(2 * k + 1) mod 4 div 2 = k mod 2" "(2 * k + 1) div 4 = k div 2" "(2 * k + 1) mod 2 = 1"
    by presburger+
  then show ?thesis by (simp only: raw_component_def item_bytes_def snd_conv)
qed

lemma convert_loop_slots:
  assumes "convert_loop 0 n ibuf fbuf = Some fbuf'" and "j < 2 * nat n"
  shows "j < length fbuf'" and "fbuf' ! j = scale127 (raw_component ibuf j)"
proof -
  from assms(2) have pos: "int 0 < n" by simp
  have up: "nat n \<le> round_up_even n" unfolding round_up_even_def by simp
  from convert_loop_closed [OF _ assms(1)] pos
  have len: "length fbuf' = length fbuf" and fit: "2 * round_up_even n \<le> length fbuf"
    and vals: "\<And>j. j < length fbuf \<Longrightarrow> fbuf' ! j =
         (if 2 * 0 \<le> j \<and> j < 2 * round_up_even n then scale127 (raw_component ibuf j)
          else fbuf ! j)"
    by simp_all
  from assms(2) up fit have j: "j < 2 * round_up_even n" "j < length fbuf" by linarith+
  from j len show "j < length fbuf'" by simp
  from vals [OF j(2)] j(1) show "fbuf' ! j = scale127 (raw_component ibuf j)" by simp
qed

lemma example_conversion:
  "convert_loop 0 2 [0x0080, 0x7F40] [0, 0, 0, 0] = Some [- 128 / 127, 64 / 127, 0, 1]"
  by (simp add: convert_loop.simps component_lo_def component_hi_def)

section \<open>Properties of the routing\<close>

lemma deint_inner_closed:
  "n \<le> nstreams \<Longrightarrow> length out = nstreams \<Longrightarrow> pos + (nstreams - n) \<le> length cbuf \<Longrightarrow>
     deint_inner n nstreams cbuf (out, pos) =
       Some (map (\<lambda>c. if n \<le> c then out ! c @ [cbuf ! (pos + (c - n))] else out ! c) [0..<nstreams],
             pos + (nstreams - n))"
proof (induction n nstreams cbuf "(out, pos)" arbitrary: out pos rule: deint_inner.induct)
  case (1 n nstreams cbuf out pos)
  show ?case
  proof (cases "n < nstreams")
    case False
    with "1.prems" show ?thesis
      by (subst deint_inner.simps) (simp add: list_eq_iff_nth_eq)
  next
    case True
    let ?out1 = "out[n := out ! n @ [cbuf ! pos]]"
    from True "1.prems" have b: "pos < length cbuf" "n < length out" by simp_all
    have "deint_inner (n + 1) nstreams cbuf (?out1, pos + 1) =
       Some (map (\<lambda>c. if n + 1 \<le> c then ?out1 ! c @ [cbuf ! (pos + 1 + (c - (n + 1)))] else ?out1 ! c)
               [0..<nstreams],
             pos + 1 + (nstreams - (n + 1)))"
      using "1.hyps" True b "1.prems" by simp
    moreover have "map (\<lambda>c. if n + 1 \<le> c then ?out1 ! c @ [cbuf ! (pos + 1 + (c - (n + 1)))] else ?out1 ! c)
               [0..<nstreams]
        = map (\<lambda>c. if n \<le> c then out ! c @ [cbuf ! (pos + (c - n))] else out ! c) [0..<nstreams]"
    proof (rule map_cong [OF refl])
      fix c assume "c \<in> set [0..<nstreams]"
      then have c: "c < length out" using "1.prems" by simp
      show "(if n + 1 \<le> c then ?out1 ! c @ [cbuf ! (pos + 1 + (c - (n + 1)))] else ?out1 ! c)
          = (if n \<le> c then out ! c @ [cbuf ! (pos + (c - n))] else out ! c)"
      proof -
        have "c < n \<or> c = n \<or> n < c" by arith
        then consider "c < n" | "c = n" | "n < c" by blast
        then show ?thesis
        proof cases
          case 1
          with c b show ?thesis by (simp add: nth_list_update)
        next
          case 2
          with c b show ?thesis by (simp add: nth_list_update)
        next
          case 3
          then have "pos + 1 + (c - (n + 1)) = pos + (c - n)" by simp
          with 3 c b show ?thesis by (simp add: nth_list_update)
        qed
      qed
    qed
    ultimately show ?thesis using True b
      by (simp add: deint_inner.simps [of n])
  qed
qed

lemma deint_round:
  "length out = nstreams \<Longrightarrow> pos + nstreams \<le> length cbuf \<Longrightarrow>
     deint_inner 0 nstreams cbuf (out, pos) =
       Some (map (\<lambda>c. out ! c @ [cbuf ! (pos + c)]) [0..<nstreams], pos + nstreams)"
  using deint_inner_closed [of 0 nstreams out pos cbuf] by simp

lemma deint_outer_closed:
  "length out = nstreams \<Longrightarrow> pos + (rounds - i) * nstreams \<le> length cbuf \<Longrightarrow>
     deint_outer i rounds nstreams cbuf (out, pos) =
       Some (map (\<lambda>c. out ! c @ map (\<lambda>k. cbuf ! (pos + k * nstreams + c)) [0..<rounds - i])
               [0..<nstreams],
             pos + (rounds - i) * nstreams)"
proof (induction i rounds nstreams cbuf "(out, pos)" arbitrary: out pos rule: deint_outer.induct)
  case (1 i rounds nstreams cbuf out pos)
  show ?case
  proof (cases "i < rounds")
    case False
    with "1.prems" show ?thesis
      by (subst deint_outer.simps) (simp add: list_eq_iff_nth_eq)
  next
    case True
    then obtain r where r: "rounds - i = Suc r" by (cases "rounds - i") auto
    then have r': "rounds - (i + 1) = r" by simp
    let ?out1 = "map (\<lambda>c. out ! c @ [cbuf ! (pos + c)]) [0..<nstreams]"
    from "1.prems" r have fit: "pos + nstreams \<le> length cbuf"
      "pos + nstreams + r * nstreams \<le> length cbuf" by simp_all
    have inner: "deint_inner 0 nstreams cbuf (out, pos) = Some (?out1, pos + nstreams)"
      using deint_round [OF "1.prems"(1) fit(1)] .

    have A: "deint_outer (i + 1) rounds nstreams cbuf (?out1, pos + nstreams) =
       Some (map (\<lambda>c. ?out1 ! c @ map (\<lambda>k. cbuf ! (pos + nstreams + k * nstreams + c)) [0..<rounds - (i + 1)])
               [0..<nstreams],
             pos + nstreams + (rounds - (i + 1)) * nstreams)"
      using "1.hyps" [OF True inner] fit r' by simp
    have B: "map (\<lambda>c. ?out1 ! c @ map (\<lambda>k. cbuf ! (pos + nstreams + k * nstreams + c)) [0..<rounds - (i + 1)])
               [0..<nstreams]
        = map (\<lambda>c. out ! c @ map (\<lambda>k. cbuf ! (pos + k * nstreams + c)) [0..<rounds - i])
               [0..<nstreams]"
    proof (rule map_cong [OF refl])
      fix c assume "c \<in> set [0..<nstreams]"
      then have c: "c < nstreams" by simp
      have eq1: "?out1 ! c = out ! c @ [cbuf ! (pos + c)]" using c by simp
      have eq2: "map (\<lambda>k. cbuf ! (pos + k * nstreams + c)) [0..<Suc r]
          = cbuf ! (pos + c) # map (\<lambda>k. cbuf ! (pos + nstreams + k * nstreams + c)) [0..<r]"
        unfolding map_upt_Suc by (simp add: ac_simps)
      show "?out1 ! c @ map (\<lambda>k. cbuf ! (pos + nstreams + k * nstreams + c)) [0..<rounds - (i + 1)]
          = out ! c @ map (\<lambda>k. cbuf ! (pos + k * nstreams + c)) [0..<rounds - i]"
        unfolding r r' eq1 eq2 by simp
    qed
    have step: "deint_outer i rounds nstreams cbuf (out, pos)
        = deint_outer (i + 1) rounds nstreams cbuf (?out1, pos + nstreams)"
      using True inner by (subst deint_outer.simps) simp
    have pos_eq: "pos + nstreams + (rounds - (i + 1)) * nstreams = pos + (rounds - i) * nstreams"
      unfolding r r' by simp
    show ?thesis unfolding step A B pos_eq ..
  qed
qed

lemma route_deinterleave:
  assumes "1 < nstreams" "0 \<le> n" "(nat n div nstreams) * nstreams \<le> length cbuf"
  shows "route nstreams n cbuf =
     Some (map (\<lambda>c. map (\<lambda>k. cbuf ! (k * nstreams + c)) [0..<nat n div nstreams]) [0..<nstreams])"
  using assms deint_outer_closed [of "replicate nstreams []" nstreams 0 "nat n div nstreams" 0 cbuf]
  by (simp add: route_def cong: map_cong)

lemma route_defined:
  assumes "0 \<le> n" "nat n \<le> length cbuf"
  shows "\<exists>out. route nstreams n cbuf = Some out"
proof (cases "1 < nstreams")
  case True
  have "(nat n div nstreams) * nstreams \<le> nat n" by simp
  with assms have "(nat n div nstreams) * nstreams \<le> length cbuf" by linarith
  from route_deinterleave [OF True assms(1) this] show ?thesis by blast
next
  case False
  with assms show ?thesis by (simp add: route_def)
qed

section \<open>Properties of the block\<close>

lemma as_complex_length: "length (as_complex fbuf) = length fbuf div 2"
  by (simp add: as_complex_def)

lemma as_complex_nth:
  "k < length fbuf div 2 \<Longrightarrow> as_complex fbuf ! k = Complex (fbuf ! (2 * k)) (fbuf ! (2 * k + 1))"
  by (simp add: as_complex_def)

text \<open>What a call of work() in a running, well-formed session does.\<close>

lemma work_running:
  assumes ok: "session_ok cfg s" and run: "running s"
    and req: "request_ok cfg n" and fits: "rx_fits cfg rx_data"
  shows "\<exists>out s'. work cfg n rx_status rx_data s =
           Some (if rx_status \<noteq> 0 \<and> MAX_CONSECUTIVE_FAILURES cfg \<le> failures s + 1
                 then WORK_DONE else n, out, s')
         \<and> running s' \<and> session_ok cfg s'
         \<and> failures s' = (if rx_status \<noteq> 0 then failures s + 1 else 0)"
proof -
  from ok obtain ibuf fbuf where bufs: "ic16buf s = Some ibuf" "fc32buf s = Some fbuf"
    and len: "length ibuf = 2 * samples_per_buffer cfg" "length fbuf = 2 * samples_per_buffer cfg"
    by (auto simp add: session_ok_def split: option.splits)
  define ibuf' where "ibuf' = rx_data @ drop (length rx_data) ibuf"
  define d' where "d' = (dev s)\<lparr>calls := calls (dev s) @ [SyncRx n]\<rparr>"
  from fits len have rx: "bladerf_sync_rx n rx_data ibuf (dev s) = Some (ibuf', d')"
    by (simp add: bladerf_sync_rx_def rx_fits_def ibuf'_def d'_def)
  from fits len have len': "length ibuf' = 2 * samples_per_buffer cfg"
    by (simp add: ibuf'_def rx_fits_def)
  show ?thesis
  proof (cases "rx_status \<noteq> 0 \<and> MAX_CONSECUTIVE_FAILURES cfg \<le> failures s + 1")
    case True
    then show ?thesis using run bufs rx len len'
      by (simp add: work_def session_ok_def)
  next
    case False
    from req have n0: "0 \<le> n" and up: "round_up_even n \<le> samples_per_buffer cfg"
      by (simp_all add: request_ok_def)
    from up len len' have "int 0 < n \<longrightarrow> round_up_even n \<le> length ibuf' \<and> 2 * round_up_even n \<le> length fbuf"
      by simp
    from convert_loop_defined [OF _ this] obtain fbuf' where
      conv: "convert_loop 0 n ibuf' fbuf = Some fbuf'" by auto
    from convert_loop_closed [OF _ conv] have lenf: "length fbuf' = length fbuf" by simp
    have "nat n \<le> round_up_even n" unfolding round_up_even_def by simp
    with up lenf len have "nat n \<le> length (as_complex fbuf')"
      by (simp add: as_complex_length)
    from route_defined [OF n0 this] obtain out where
      rt: "route (num_streams (layout cfg)) n (as_complex fbuf') = Some out" by blast
    show ?thesis using False run bufs rx conv rt len' lenf len
      by (auto simp add: work_def session_ok_def Let_def)
  qed
qed

lemma work_run_failing:
  assumes "session_ok cfg s" "running s" "request_ok cfg n" "all_failed cfg rxs"
    and "failures s + length rxs \<le> MAX_CONSECUTIVE_FAILURES cfg"
  shows "\<exists>s'. work_run cfg n rxs s =
            Some (if rxs \<noteq> [] \<and> failures s + length rxs = MAX_CONSECUTIVE_FAILURES cfg
                  then replicate (length rxs - 1) n @ [WORK_DONE]
                  else replicate (length rxs) n, s')
          \<and> running s' \<and> session_ok cfg s' \<and> failures s' = failures s + length rxs"
  using assms
proof (induction rxs arbitrary: s)
  case Nil
  then show ?case by simp
next
  case (Cons rx rxs)
  obtain st data where rx: "rx = (st, data)" by (cases rx)
  from Cons.prems(4) rx have st: "st \<noteq> 0" and fits: "rx_fits cfg data"
    and rest: "all_failed cfg rxs" by (simp_all add: all_failed_def)
  from work_running [OF Cons.prems(1,2,3) fits, of st] st obtain out s1 where
    w: "work cfg n st data s =
          Some (if MAX_CONSECUTIVE_FAILURES cfg \<le> failures s + 1 then WORK_DONE else n, out, s1)"
    and s1: "running s1" "session_ok cfg s1" "failures s1 = failures s + 1"
    by auto
  from Cons.prems(5) s1 have le: "failures s1 + length rxs \<le> MAX_CONSECUTIVE_FAILURES cfg" by simp
  from Cons.IH [OF s1(2) s1(1) Cons.prems(3) rest le] obtain s' where
    r: "work_run cfg n rxs s1 =
            Some (if rxs \<noteq> [] \<and> failures s1 + length rxs = MAX_CONSECUTIVE_FAILURES cfg
                  then replicate (length rxs - 1) n @ [WORK_DONE]
                  else replicate (length rxs) n, s')"
    and s': "running s'" "session_ok cfg s'" "failures s' = failures s1 + length rxs"
    by auto
  show ?case
  proof (cases "rxs = []")
    case True
    with w r s' s1 Cons.prems(5) show ?thesis
      by (auto simp add: rx)
  next
    case False
    from False obtain m where m: "length rxs = Suc m" by (cases rxs) auto
    with Cons.prems(5) have nd: "\<not> MAX_CONSECUTIVE_FAILURES cfg \<le> failures s + 1" by simp
    show ?thesis using w r s' s1 nd False
      by (auto simp add: rx m)
  qed
qed


lemma running_session_ok1: "session_ok cfg1 running_session"
  by (simp add: session_ok_def cfg1_def running_session_def)

lemma running_session_ok2: "session_ok cfg2 running_session"
  by (simp add: session_ok_def cfg2_def running_session_def)

lemma running_session_running: "running running_session"
  by (simp add: running_session_def)

lemma stopped_session_stopped: "\<not> running stopped_session"
  by (simp add: stopped_session_def)

lemma request_2_ok: "request_ok cfg1 2"
  by (simp add: request_ok_def round_up_even_def cfg1_def)

lemma empty_rx_fits: "rx_fits cfg []"
  by (simp add: rx_fits_def)

lemma request_4_ok: "request_ok cfg2 4"
  by (simp add: request_ok_def round_up_even_def cfg2_def)

lemma three_failures: "all_failed cfg1 [(1, []), (1, []), (1, [])]"
  by (simp add: all_failed_def rx_fits_def)

lemma max_cfg1: "MAX_CONSECUTIVE_FAILURES cfg1 = 3"
  by (simp add: cfg1_def)

lemma byte_of_lo: "halfword_byte 0 (ucast (b :: 8 word)) = b"
  unfolding halfword_byte_def by (simp, rule bit_word_eqI) (auto simp add: bit_simps)

lemma byte_of_hi: "halfword_byte 1 (push_bit 8 (ucast (b :: 8 word))) = b"
  unfolding halfword_byte_def by (simp, rule bit_word_eqI) (auto simp add: bit_simps)

lemma scale127_range: "- 128 / 127 \<le> scale127 b \<and> scale127 b \<le> 1"
proof -
  define v where "v = sint b"
  have "- 128 \<le> v" using sint_ge [of b] by (simp add: v_def)
  moreover have "v < 128" using sint_lt [of b] by (simp add: v_def)
  ultimately have "- 128 / 127 \<le> real_of_int v / 127 \<and> real_of_int v / 127 \<le> 1" by simp
  then show ?thesis unfolding scale127_def v_def .
qed

lemma two_empty_ports: "replicate 2 [] = [[], []]"
  by (simp add: numeral_2_eq_2)

text \<open>
  End to end, for the single-channel layout and a successful receive: item \<open>k\<close>
  handed to the output port is made of the two bytes \<^const>\<open>item_bytes\<close> names in the
  buffer after the receive, each divided by 127.
\<close>

lemma work_single_stream_output:
  assumes ok: "session_ok cfg s" and run: "running s"
    and req: "request_ok cfg n" and fits: "rx_fits cfg rx_data"
    and lay: "layout cfg = BLADERF_RX_X1"
    and buf: "ic16buf s = Some ibuf"
  shows "\<exists>s'. work cfg n 0 rx_data s =
           Some (n,
                 [map (\<lambda>k. Complex (scale127 (fst (item_bytes (rx_data @ drop (length rx_data) ibuf) k)))
                                   (scale127 (snd (item_bytes (rx_data @ drop (length rx_data) ibuf) k))))
                    [0..<nat n]],
                 s')"
proof -
  from ok buf obtain fbuf where bufs: "fc32buf s = Some fbuf"
    and len: "length ibuf = 2 * samples_per_buffer cfg" "length fbuf = 2 * samples_per_buffer cfg"
    by (auto simp add: session_ok_def split: option.splits)
  define ibuf' where "ibuf' = rx_data @ drop (length rx_data) ibuf"
  define d' where "d' = (dev s)\<lparr>calls := calls (dev s) @ [SyncRx n]\<rparr>"
  from fits len have rx: "bladerf_sync_rx n rx_data ibuf (dev s) = Some (ibuf', d')"
    by (simp add: bladerf_sync_rx_def rx_fits_def ibuf'_def d'_def)
  from fits len have len': "length ibuf' = 2 * samples_per_buffer cfg"
    by (simp add: ibuf'_def rx_fits_def)
  from req have n0: "0 \<le> n" and up: "round_up_even n \<le> samples_per_buffer cfg"
    by (simp_all add: request_ok_def)
  from up len len' have "int 0 < n \<longrightarrow> round_up_even n \<le> length ibuf' \<and> 2 * round_up_even n \<le> length fbuf"
    by simp
  from convert_loop_defined [OF _ this] obtain fbuf' where
    conv: "convert_loop 0 n ibuf' fbuf = Some fbuf'" by auto
  from convert_loop_closed [OF _ conv] have lenf: "length fbuf' = length fbuf" by simp
  have "nat n \<le> round_up_even n" unfolding round_up_even_def by simp
  with up lenf len have fit: "nat n \<le> length (as_complex fbuf')"
    by (simp add: as_complex_length)
  have "take (nat n) (as_complex fbuf')
      = map (\<lambda>k. Complex (scale127 (fst (item_bytes ibuf' k))) (scale127 (snd (item_bytes ibuf' k))))
          [0..<nat n]"
  proof (rule nth_equalityI)
    show "length (take (nat n) (as_complex fbuf')) = length (map (\<lambda>k. Complex (scale127 (fst (item_bytes ibuf' k))) (scale127 (snd (item_bytes ibuf' k))))
          [0..<nat n])"
      using fit by simp
  next
    fix k assume "k < length (take (nat n) (as_complex fbuf'))"
    with fit have k: "k < nat n" by simp
    have "as_complex fbuf' ! k
         = Complex (scale127 (fst (item_bytes ibuf' k))) (scale127 (snd (item_bytes ibuf' k)))"
    proof -
      from k have j: "2 * k < 2 * nat n" "2 * k + 1 < 2 * nat n" by simp_all
      from convert_loop_slots(1) [OF conv j(2)] have kk: "k < length fbuf' div 2" by simp
      from convert_loop_slots(2) [OF conv j(1)] convert_loop_slots(2) [OF conv j(2)]
      have "fbuf' ! (2 * k) = scale127 (fst (item_bytes ibuf' k))"
        and "fbuf' ! (2 * k + 1) = scale127 (snd (item_bytes ibuf' k))"
        by (simp_all only: raw_component_even raw_component_odd)
      with kk show ?thesis by (simp add: as_complex_nth)
    qed
    with k show "take (nat n) (as_complex fbuf') ! k = map (\<lambda>k. Complex (scale127 (fst (item_bytes ibuf' k))) (scale127 (snd (item_bytes ibuf' k))))
          [0..<nat n] ! k"
      by simp
  qed
  with fit n0 have rt: "route (num_streams (layout cfg)) n (as_complex fbuf')
      = Some [map (\<lambda>k. Complex (scale127 (fst (item_bytes ibuf' k))) (scale127 (snd (item_bytes ibuf' k))))
          [0..<nat n]]"
    by (simp add: route_def lay num_streams_def)
  show ?thesis using run buf bufs rx conv rt
    by (simp add: work_def Let_def ibuf'_def)
qed

section \<open>The claims\<close>

subsection \<open>stop and work outside a running session\<close>

text \<open>
  Claim C7. Calling \<^verbatim>\<open>stop()\<close> when the source is already stopped returns \<open>true\<close> and
  has no side effect: the whole session (running flag, channel-enable states, scratch
  buffers, and the device with its call log) is the one before the call.
\<close>

theorem stop_when_stopped_is_noop:
  "\<not> running s \<Longrightarrow> stop cfg env s = (Returned True, s)"
  by (simp add: stop_def)

theorem stop_when_stopped_is_noop_witness:
  "\<not> running stopped_session
   \<and> stop cfg2 ch1_fails_env stopped_session = (Returned True, stopped_session)"
proof -
  have h: "\<not> running stopped_session" by (rule stopped_session_stopped)
  from h stop_when_stopped_is_noop [OF h] show ?thesis by (rule conjI)
qed

text \<open>
  Claim C9. \<^verbatim>\<open>work()\<close> called while the source is not running returns zero, writes to
  no output port and leaves the session as it was; in particular the device log is
  unchanged, so no receive was issued.
\<close>

theorem work_when_not_running_is_noop:
  "\<not> running s \<Longrightarrow> work cfg n rx_status rx_data s = Some (0, [], s)"
  by (simp add: work_def)

theorem work_when_not_running_is_noop_witness:
  "\<not> running stopped_session
   \<and> work cfg2 4 0 [1, 2, 3] stopped_session = Some (0, [], stopped_session)"
proof -
  have h: "\<not> running stopped_session" by (rule stopped_session_stopped)
  from h work_when_not_running_is_noop [OF h] show ?thesis by (rule conjI)
qed

text \<open>
  Claim C10. \<^verbatim>\<open>stop()\<close> clears \<^verbatim>\<open>_running\<close> before the first device call of the
  teardown. Whatever the device answers, and whether \<^verbatim>\<open>stop()\<close> returns or throws,
  the session it leaves behind is not running and a following \<^verbatim>\<open>work()\<close> returns zero
  without touching anything.
\<close>

theorem stop_clears_running_before_teardown:
  "\<not> running (snd (stop cfg env s))
   \<and> work cfg n rx_status rx_data (snd (stop cfg env s)) = Some (0, [], snd (stop cfg env s))"
proof -
  have "\<not> running (snd (stop cfg env s))"
    by (simp add: stop_def Let_def split: prod.splits option.splits)
  then show ?thesis by (simp add: work_def)
qed

text \<open>The teardown can indeed throw: the buffers are then still allocated.\<close>

lemma stop_can_throw:
  "fst (stop cfg2 ch1_fails_env running_session) = Threw (- 1) ''bladerf_enable_module failed''
   \<and> ic16buf (snd (stop cfg2 ch1_fails_env running_session)) \<noteq> None"
  by (simp add: stop_def cfg2_def ch1_fails_env_def running_session_def module_loop.simps
      bladerf_enable_module_def Let_def)

subsection \<open>A failing start\<close>




subsection \<open>Failed receives\<close>

text \<open>
  Claim C3 says that a \<^verbatim>\<open>work()\<close> call whose receive fails below the threshold returns
  zero. With a threshold of three and no earlier failure, \<^verbatim>\<open>work(2)\<close> with a failing
  receive returns 2.
\<close>

theorem transient_failure_returns_zero_counterexample:
  "running running_session
   \<and> failures running_session + 1 < MAX_CONSECUTIVE_FAILURES cfg1
   \<and> map_option fst (work cfg1 2 1 [] running_session) = Some 2"
  by (simp add: work_def cfg1_def running_session_def num_streams_def bladerf_sync_rx_def
      convert_loop.simps route_def as_complex_def)

text \<open>
  Claim C3, amended. In a running session, a \<^verbatim>\<open>work(n)\<close> call whose receive fails
  while the incremented failure counter is still below the threshold returns the
  requested count \<open>n\<close> (it converts and routes whatever the scratch buffer holds), not
  the terminal signal; the counter is incremented and streaming continues: the session
  is still running and a following \<^verbatim>\<open>work(n)\<close> with a successful receive returns \<open>n\<close>
  and resets the counter.
\<close>

theorem transient_failure_returns_request:
  assumes "session_ok cfg s" and "running s" and "request_ok cfg n"
    and "rx_fits cfg rx_data" and "rx_status \<noteq> 0"
    and "failures s + 1 < MAX_CONSECUTIVE_FAILURES cfg"
    and "rx_fits cfg next_data"
  shows "\<exists>out s'. work cfg n rx_status rx_data s = Some (n, out, s')
           \<and> n \<noteq> WORK_DONE \<and> running s' \<and> failures s' = failures s + 1
           \<and> (\<exists>out2 s2. work cfg n 0 next_data s' = Some (n, out2, s2) \<and> failures s2 = 0)"
proof -
  from work_running [OF assms(1,2,3,4), of rx_status] assms(5,6) obtain out s' where
    w: "work cfg n rx_status rx_data s = Some (n, out, s')"
    and s': "running s'" "session_ok cfg s'" "failures s' = failures s + 1"
    by auto
  from work_running [OF s'(2) s'(1) assms(3) assms(7), of 0] obtain out2 s2 where
    w2: "work cfg n 0 next_data s' = Some (n, out2, s2)" and "failures s2 = 0"
    by auto
  moreover from assms(3) have "n \<noteq> WORK_DONE" by (simp add: request_ok_def WORK_DONE_def)
  ultimately show ?thesis using w s' by blast
qed

theorem transient_failure_returns_request_witness:
  "session_ok cfg1 running_session \<and> running running_session \<and> request_ok cfg1 2
   \<and> rx_fits cfg1 [] \<and> (1::int) \<noteq> 0
   \<and> failures running_session + 1 < MAX_CONSECUTIVE_FAILURES cfg1
   \<and> (\<exists>out s'. work cfg1 2 1 [] running_session = Some (2, out, s')
           \<and> 2 \<noteq> WORK_DONE \<and> running s' \<and> failures s' = failures running_session + 1
           \<and> (\<exists>out2 s2. work cfg1 2 0 [] s' = Some (2, out2, s2) \<and> failures s2 = 0))"
proof -
  have h5: "(1::int) \<noteq> 0" by simp
  have h6: "failures running_session + 1 < MAX_CONSECUTIVE_FAILURES cfg1"
    by (simp add: running_session_def cfg1_def)
  note c = transient_failure_returns_request [OF running_session_ok1 running_session_running
      request_2_ok empty_rx_fits h5 h6 empty_rx_fits]
  show ?thesis
    using running_session_ok1 running_session_running request_2_ok empty_rx_fits [of cfg1] h5 h6 c
    by (intro conjI)
qed

text \<open>
  Claim C4 says that after exactly \<^verbatim>\<open>MAX_CONSECUTIVE_FAILURES\<close> consecutive failed
  transfers it is the next \<^verbatim>\<open>work()\<close> call that returns the terminal signal. With a
  threshold of three, the third failing call already returns \<^verbatim>\<open>WORK_DONE\<close>, and the
  call after it, whose receive succeeds, returns a produced count again.
\<close>

theorem terminal_signal_one_call_late_counterexample:
  "map_option fst (work_run cfg1 2 [(1, []), (1, []), (1, []), (0, [])] running_session)
     = Some [2, 2, WORK_DONE, 2]"
  by (simp add: work_def cfg1_def running_session_def num_streams_def bladerf_sync_rx_def
      convert_loop.simps route_def as_complex_def WORK_DONE_def)

text \<open>
  Claim C4, amended. Each failed receive increments the consecutive-failure counter and
  a successful receive resets it to zero. After a successful call, with a threshold of
  at least one, the first \<^verbatim>\<open>MAX_CONSECUTIVE_FAILURES - 1\<close> consecutive failing calls
  return the requested count and the call whose receive is failure number
  \<^verbatim>\<open>MAX_CONSECUTIVE_FAILURES\<close> itself returns \<^verbatim>\<open>WORK_DONE\<close>; the counter then equals the
  number of failures since the success.
\<close>

theorem threshold_reached_by_failing_call:
  assumes "session_ok cfg s" and "running s" and "request_ok cfg n"
    and "rx_fits cfg data0" and "all_failed cfg rxs"
    and "0 < MAX_CONSECUTIVE_FAILURES cfg"
    and "length rxs \<le> MAX_CONSECUTIVE_FAILURES cfg"
  shows "\<exists>s'. work_run cfg n ((0, data0) # rxs) s =
            Some (n # (if length rxs = MAX_CONSECUTIVE_FAILURES cfg
                       then replicate (length rxs - 1) n @ [WORK_DONE]
                       else replicate (length rxs) n), s')
          \<and> failures s' = length rxs"
proof -
  from work_running [OF assms(1,2,3,4), of 0] obtain out s1 where
    w: "work cfg n 0 data0 s = Some (n, out, s1)"
    and s1: "running s1" "session_ok cfg s1" "failures s1 = 0"
    by auto
  from assms(7) s1 have le: "failures s1 + length rxs \<le> MAX_CONSECUTIVE_FAILURES cfg" by simp
  from work_run_failing [OF s1(2) s1(1) assms(3) assms(5) le] obtain s' where
    r: "work_run cfg n rxs s1 =
            Some (if rxs \<noteq> [] \<and> failures s1 + length rxs = MAX_CONSECUTIVE_FAILURES cfg
                  then replicate (length rxs - 1) n @ [WORK_DONE]
                  else replicate (length rxs) n, s')"
    and s': "failures s' = failures s1 + length rxs"
    by auto
  from assms(6) have "length rxs = MAX_CONSECUTIVE_FAILURES cfg \<Longrightarrow> rxs \<noteq> []" by auto
  with w r s' s1 show ?thesis by auto
qed

theorem threshold_reached_by_failing_call_witness:
  "session_ok cfg1 running_session \<and> running running_session \<and> request_ok cfg1 2
   \<and> rx_fits cfg1 [] \<and> all_failed cfg1 [(1, []), (1, []), (1, [])]
   \<and> 0 < MAX_CONSECUTIVE_FAILURES cfg1
   \<and> length [(1::int, []::16 word list), (1, []), (1, [])] \<le> MAX_CONSECUTIVE_FAILURES cfg1
   \<and> (\<exists>s'. work_run cfg1 2 [(0, []), (1, []), (1, []), (1, [])] running_session =
            Some ([2, 2, 2, WORK_DONE], s') \<and> failures s' = 3)"
proof -
  have h6: "0 < MAX_CONSECUTIVE_FAILURES cfg1" by (simp add: cfg1_def)
  have h7: "length [(1::int, []::16 word list), (1, []), (1, [])] \<le> MAX_CONSECUTIVE_FAILURES cfg1"
    by (simp add: cfg1_def)
  have "\<exists>s'. work_run cfg1 2 [(0, []), (1, []), (1, []), (1, [])] running_session =
            Some ([2, 2, 2, WORK_DONE], s') \<and> failures s' = 3"
    using threshold_reached_by_failing_call [OF running_session_ok1 running_session_running
      request_2_ok empty_rx_fits three_failures h6 h7]
    by (simp del: work_run.simps add: max_cfg1 eval_nat_numeral)
  with running_session_ok1 running_session_running request_2_ok empty_rx_fits [of cfg1]
    three_failures h6 h7
  show ?thesis by (intro conjI)
qed

subsection \<open>The produced count\<close>

text \<open>
  Claim C5 says that every \<^verbatim>\<open>work(n)\<close> of a running source returns a multiple of the
  channel count. A block constructed for two channels that is asked for three items
  returns three.
\<close>

theorem produced_count_not_multiple_counterexample:
  "num_channels (constructor_setup 32 2 2 (samples_per_buffer cfg2)) = 2
   \<and> setup_layout (constructor_setup 32 2 2 (samples_per_buffer cfg2)) = layout cfg2
   \<and> running running_session
   \<and> map_option fst (work cfg2 3 0 [0x0201, 0x0403, 0x0605, 0x0807] running_session) = Some 3
   \<and> \<not> (2::int) dvd 3"
  by (simp add: constructor_setup_def work_def cfg2_def running_session_def num_streams_def
      bladerf_sync_rx_def convert_loop.simps route_def deint_outer.simps deint_inner.simps
      as_complex_def)

text \<open>
  Claim C5, amended. The constructor installs \<^verbatim>\<open>_samples_per_buffer\<close> as the largest
  request and the channel count as the output multiple. \<^verbatim>\<open>work(n)\<close> itself neither
  rounds nor caps: in a running session it returns the terminal signal or exactly \<open>n\<close>.
  Hence for a request that respects the installed constraints (a multiple of the
  output multiple that, rounded up to an even number, is at most
  \<^verbatim>\<open>_samples_per_buffer\<close>) the produced count is a multiple of the channel count and
  at most \<open>min(n, samples_per_buffer)\<close>.
\<close>

theorem produced_count_under_scheduler_constraints:
  assumes "session_ok cfg s" and "running s" and "rx_fits cfg rx_data"
    and "setup = constructor_setup volk_alignment requested hw_max (samples_per_buffer cfg)"
    and "request_ok cfg n"
    and "int (output_multiple setup) dvd n"
  shows "max_noutput_items setup = samples_per_buffer cfg
     \<and> output_multiple setup = num_channels setup
     \<and> n \<le> int (max_noutput_items setup)
     \<and> (\<exists>r out s'. work cfg n rx_status rx_data s = Some (r, out, s')
           \<and> (r = WORK_DONE \<or>
               (r = n \<and> int (num_channels setup) dvd r
                \<and> r \<le> min n (int (samples_per_buffer cfg)))))"
proof -
  have a: "max_noutput_items setup = samples_per_buffer cfg"
    and b: "output_multiple setup = num_channels setup"
    by (simp_all add: assms(4) constructor_setup_def Let_def)
  have "nat n \<le> round_up_even n" unfolding round_up_even_def by simp
  moreover from assms(5) have "0 \<le> n" "round_up_even n \<le> samples_per_buffer cfg"
    by (simp_all add: request_ok_def)
  ultimately have c: "n \<le> int (samples_per_buffer cfg)" by linarith
  from work_running [OF assms(1,2,5,3), of rx_status] obtain r out s' where
    w: "work cfg n rx_status rx_data s = Some (r, out, s')" and "r = WORK_DONE \<or> r = n"
    by (cases "rx_status \<noteq> 0 \<and> MAX_CONSECUTIVE_FAILURES cfg \<le> failures s + 1") auto
  with assms(6) b c have "r = WORK_DONE \<or>
               (r = n \<and> int (num_channels setup) dvd r
                \<and> r \<le> min n (int (samples_per_buffer cfg)))" by auto
  with w a b c show ?thesis by auto
qed

theorem produced_count_under_scheduler_constraints_witness:
  "session_ok cfg2 running_session \<and> running running_session \<and> rx_fits cfg2 []
   \<and> request_ok cfg2 4
   \<and> int (output_multiple (constructor_setup 32 2 2 (samples_per_buffer cfg2))) dvd 4
   \<and> (\<exists>r out s'. work cfg2 4 0 [] running_session = Some (r, out, s')
           \<and> (r = WORK_DONE \<or>
               (r = 4 \<and> int (num_channels (constructor_setup 32 2 2 (samples_per_buffer cfg2))) dvd r
                \<and> r \<le> min 4 (int (samples_per_buffer cfg2)))))"
proof -
  have h6: "int (output_multiple (constructor_setup 32 2 2 (samples_per_buffer cfg2))) dvd 4"
    by (simp add: constructor_setup_def)
  note c = produced_count_under_scheduler_constraints [OF running_session_ok2
      running_session_running empty_rx_fits refl request_4_ok h6, of 0]
  from c have "\<exists>r out s'. work cfg2 4 0 [] running_session = Some (r, out, s')
           \<and> (r = WORK_DONE \<or>
               (r = 4 \<and> int (num_channels (constructor_setup 32 2 2 (samples_per_buffer cfg2))) dvd r
                \<and> r \<le> min 4 (int (samples_per_buffer cfg2))))"
    by blast
  with running_session_ok2 running_session_running empty_rx_fits [of cfg2] request_4_ok h6
  show ?thesis by (intro conjI)
qed

subsection \<open>Routing\<close>

text \<open>
  Claim C6. With one stream the routing step copies the requested items of the
  converted buffer unchanged and in order to the single output. With two streams and
  the converted items \<open>[a0, b0, a1, b1, a2, b2]\<close> it writes \<open>[a0, a1, a2]\<close> to channel 0
  and \<open>[b0, b1, b2]\<close> to channel 1. In both cases \<open>rest\<close> is the part of the scratch
  buffer beyond the request; it is not copied.
\<close>

theorem route_single_and_dual:
  "route 1 (int (length xs)) (xs @ rest) = Some [xs]
   \<and> route 2 6 ([a0, b0, a1, b1, a2, b2] @ rest) = Some [[a0, a1, a2], [b0, b1, b2]]"
proof -
  have "route 1 (int (length xs)) (xs @ rest) = Some [xs]" by (simp add: route_def)
  moreover have "route 2 6 ([a0, b0, a1, b1, a2, b2] @ rest) = Some [[a0, a1, a2], [b0, b1, b2]]"
    by (simp add: route_def deint_outer.simps deint_inner.simps two_empty_ports)
  ultimately show ?thesis by (rule conjI)
qed

subsection \<open>Conversion\<close>

text \<open>
  Claim C1. On buffers that hold the request rounded up to an even number, the
  conversion loop of \<^verbatim>\<open>work()\<close> returns, and every float it stores below the request
  is the signed 8-bit component it reads, divided by 127, without clamping: the values
  range over \<open>[-128/127, 1]\<close>. Every 8-bit value \<open>b\<close>, in the low or in the high byte of a
  halfword, is converted to \<open>b / 127\<close>; in particular \<open>-128\<close> gives \<open>-128/127\<close>, which is
  \<open>-1.0079\<close> up to \<open>0.0001\<close>, \<open>0\<close> gives \<open>0\<close>, \<open>127\<close> gives \<open>1\<close> and \<open>64\<close> gives \<open>64/127\<close>,
  which is \<open>0.504\<close> up to \<open>0.0001\<close>.
\<close>

theorem conversion_divides_by_127:
  assumes "round_up_even n \<le> length ibuf" and "2 * round_up_even n \<le> length fbuf"
    and "j < 2 * nat n"
  shows "(\<exists>fbuf'. convert_loop 0 n ibuf fbuf = Some fbuf'
            \<and> fbuf' ! j = real_of_int (sint (raw_component ibuf j)) / 127
            \<and> - 128 / 127 \<le> fbuf' ! j \<and> fbuf' ! j \<le> 1)
     \<and> component_lo (ucast b) = real_of_int (sint (b :: 8 word)) / 127
     \<and> component_hi (push_bit 8 (ucast b)) = real_of_int (sint b) / 127
     \<and> component_lo 0x0080 = - 128 / 127 \<and> \<bar>component_lo 0x0080 - (- 1.0079)\<bar> < 0.0001
     \<and> component_lo 0x0000 = 0
     \<and> component_lo 0x007F = 1
     \<and> component_lo 0x0040 = 64 / 127 \<and> \<bar>component_lo 0x0040 - 0.504\<bar> < 0.0001
     \<and> component_hi 0x8000 = - 128 / 127
     \<and> component_hi 0x0000 = 0
     \<and> component_hi 0x7F00 = 1
     \<and> component_hi 0x4000 = 64 / 127"
proof -
  from assms(1,2) have "int 0 < n \<longrightarrow> round_up_even n \<le> length ibuf \<and> 2 * round_up_even n \<le> length fbuf"
    by simp
  from convert_loop_defined [OF _ this] obtain fbuf' where
    conv: "convert_loop 0 n ibuf fbuf = Some fbuf'" by auto
  have v: "fbuf' ! j = scale127 (raw_component ibuf j)"
    using convert_loop_slots(2) [OF conv assms(3)] .
  have a: "fbuf' ! j = real_of_int (sint (raw_component ibuf j)) / 127"
    using v unfolding scale127_def .
  have r: "- 128 / 127 \<le> fbuf' ! j \<and> fbuf' ! j \<le> 1"
    unfolding v by (rule scale127_range)
  from conv a r have total: "\<exists>fbuf'. convert_loop 0 n ibuf fbuf = Some fbuf'
            \<and> fbuf' ! j = real_of_int (sint (raw_component ibuf j)) / 127
            \<and> - 128 / 127 \<le> fbuf' ! j \<and> fbuf' ! j \<le> 1"
    by blast
  have lo: "component_lo (ucast b) = real_of_int (sint b) / 127"
    unfolding component_lo_scale byte_of_lo scale127_def ..
  have hi: "component_hi (push_bit 8 (ucast b)) = real_of_int (sint b) / 127"
    unfolding component_hi_scale byte_of_hi scale127_def ..
  have t1: "component_lo 0x0080 = - 128 / 127" by (simp add: component_lo_def)
  have t2: "component_lo 0x0000 = 0" by (simp add: component_lo_def)
  have t3: "component_lo 0x007F = 1" by (simp add: component_lo_def)
  have t4: "component_lo 0x0040 = 64 / 127" by (simp add: component_lo_def)
  have t5: "component_hi 0x8000 = - 128 / 127" by (simp add: component_hi_def)
  have t6: "component_hi 0x0000 = 0" by (simp add: component_hi_def)
  have t7: "component_hi 0x7F00 = 1" by (simp add: component_hi_def)
  have t8: "component_hi 0x4000 = 64 / 127" by (simp add: component_hi_def)
  have n1: "\<bar>component_lo 0x0080 - (- 1.0079)\<bar> < 0.0001" unfolding t1 by simp
  have n4: "\<bar>component_lo 0x0040 - 0.504\<bar> < 0.0001" unfolding t4 by simp
  from total lo hi t1 n1 t2 t3 t4 n4 t5 t6 t7 t8 show ?thesis by (intro conjI)
qed

theorem conversion_divides_by_127_witness:
  "round_up_even 2 \<le> length [0x0080, 0x7F40 :: 16 word]
   \<and> 2 * round_up_even 2 \<le> length [0, 0, 0, 0 :: real]
   \<and> (3::nat) < 2 * nat 2
   \<and> (\<exists>fbuf'. convert_loop 0 2 [0x0080, 0x7F40] [0, 0, 0, 0] = Some fbuf'
            \<and> fbuf' ! 3 = real_of_int (sint (raw_component [0x0080, 0x7F40] 3)) / 127
            \<and> - 128 / 127 \<le> fbuf' ! 3 \<and> fbuf' ! 3 \<le> 1)
   \<and> convert_loop 0 2 [0x0080, 0x7F40] [0, 0, 0, 0] = Some [- 128 / 127, 64 / 127, 0, 1]"
proof -
  have h1: "round_up_even 2 \<le> length [0x0080, 0x7F40 :: 16 word]"
    by (simp add: round_up_even_def)
  have h2: "2 * round_up_even 2 \<le> length [0, 0, 0, 0 :: real]"
    by (simp add: round_up_even_def)
  have h3: "(3::nat) < 2 * nat 2" by simp
  note c = conversion_divides_by_127 [OF h1 h2 h3, THEN conjunct1]
  from h1 h2 h3 c example_conversion show ?thesis by (intro conjI)
qed

text \<open>
  Claim C2 says that input sample \<open>k\<close> of the raw buffer becomes output sample \<open>k\<close>.
  With the samples of the raw buffer numbered as the source numbers them, converted
  item 1 is built from input sample 0: changing only halfword 0 changes item 1 although
  input sample 1 is the same, and changing input sample 1 leaves item 1 as it was.
\<close>

theorem output_item_1_from_input_sample_0_counterexample:
  "sample16 [0x0201, 0x0403, 0x0605, 0x0807] 1 = sample16 [0x0901, 0x0403, 0x0605, 0x0807] 1
   \<and> convert_loop 0 2 [0x0201, 0x0403, 0x0605, 0x0807] [0, 0, 0, 0]
        = Some [1 / 127, 3 / 127, 2 / 127, 4 / 127]
   \<and> convert_loop 0 2 [0x0901, 0x0403, 0x0605, 0x0807] [0, 0, 0, 0]
        = Some [1 / 127, 3 / 127, 9 / 127, 4 / 127]
   \<and> as_complex [1 / 127, 3 / 127, 2 / 127, 4 / 127] ! 1 = Complex (2 / 127) (4 / 127)
   \<and> as_complex [1 / 127, 3 / 127, 9 / 127, 4 / 127] ! 1 = Complex (9 / 127) (4 / 127)
   \<and> sample16 [0x0201, 0x0403, 0x0605, 0x0807] 1 \<noteq> sample16 [0x0201, 0x0403, 0, 0] 1
   \<and> convert_loop 0 2 [0x0201, 0x0403, 0, 0] [0, 0, 0, 0]
        = Some [1 / 127, 3 / 127, 2 / 127, 4 / 127]"
  by (simp add: sample16_def convert_loop.simps component_lo_def component_hi_def
      as_complex_def)

text \<open>
  Claim C2, amended. For every raw buffer and every index \<open>k\<close> below the request (with
  buffers that hold the request rounded up to an even number) the conversion returns,
  and converted item \<open>k\<close> is built from input sample \<open>k div 2\<close>: its real part is byte
  \<open>k mod 2\<close> of the first halfword of that sample, its imaginary part byte \<open>k mod 2\<close> of
  the second halfword, each divided by 127. The order of the buffer is kept in that
  items \<open>2m\<close> and \<open>2m + 1\<close> both come from input sample \<open>m\<close>.
\<close>

theorem converted_item_from_sample_k_div_2:
  assumes "round_up_even n \<le> length ibuf" and "2 * round_up_even n \<le> length fbuf"
    and "k < nat n"
  shows "\<exists>fbuf'. convert_loop 0 n ibuf fbuf = Some fbuf'
     \<and> k < length (as_complex fbuf')
     \<and> as_complex fbuf' ! k
         = Complex (scale127 (halfword_byte (k mod 2) (fst (sample16 ibuf (k div 2)))))
                   (scale127 (halfword_byte (k mod 2) (snd (sample16 ibuf (k div 2)))))"
proof -
  from assms(1,2) have "int 0 < n \<longrightarrow> round_up_even n \<le> length ibuf \<and> 2 * round_up_even n \<le> length fbuf"
    by simp
  from convert_loop_defined [OF _ this] obtain fbuf' where
    conv: "convert_loop 0 n ibuf fbuf = Some fbuf'" by auto
  from assms(3) have j: "2 * k < 2 * nat n" "2 * k + 1 < 2 * nat n" by simp_all
  from convert_loop_slots(1) [OF conv j(2)] have k: "k < length fbuf' div 2" by simp
  from convert_loop_slots(2) [OF conv j(1)] convert_loop_slots(2) [OF conv j(2)]
  have "fbuf' ! (2 * k) = scale127 (fst (item_bytes ibuf k))"
    and "fbuf' ! (2 * k + 1) = scale127 (snd (item_bytes ibuf k))"
    by (simp_all only: raw_component_even raw_component_odd)
  with k have "k < length (as_complex fbuf')
     \<and> as_complex fbuf' ! k
         = Complex (scale127 (halfword_byte (k mod 2) (fst (sample16 ibuf (k div 2)))))
                   (scale127 (halfword_byte (k mod 2) (snd (sample16 ibuf (k div 2)))))"
    by (simp add: as_complex_length as_complex_nth item_bytes_def sample16_def)
  with conv show ?thesis by blast
qed

theorem converted_item_from_sample_k_div_2_witness:
  "round_up_even 2 \<le> length [0x0201, 0x0403, 0x0605, 0x0807 :: 16 word]
   \<and> 2 * round_up_even 2 \<le> length [0, 0, 0, 0 :: real]
   \<and> (1::nat) < nat 2
   \<and> (\<exists>fbuf'. convert_loop 0 2 [0x0201, 0x0403, 0x0605, 0x0807] [0, 0, 0, 0] = Some fbuf'
     \<and> 1 < length (as_complex fbuf')
     \<and> as_complex fbuf' ! 1
         = Complex (scale127 (halfword_byte (1 mod 2)
                      (fst (sample16 [0x0201, 0x0403, 0x0605, 0x0807] (1 div 2)))))
                   (scale127 (halfword_byte (1 mod 2)
                      (snd (sample16 [0x0201, 0x0403, 0x0605, 0x0807] (1 div 2))))))"
proof -
  have h1: "round_up_even 2 \<le> length [0x0201, 0x0403, 0x0605, 0x0807 :: 16 word]"
    by (simp add: round_up_even_def)
  have h2: "2 * round_up_even 2 \<le> length [0, 0, 0, 0 :: real]"
    by (simp add: round_up_even_def)
  have h3: "(1::nat) < nat 2" by simp
  note c = converted_item_from_sample_k_div_2 [OF h1 h2 h3]
  from h1 h2 h3 c show ?thesis by (intro conjI)
qed

end
